theory Spec2Isabelle
  imports Main "HOL-Library.Sublist" "HOL-Library.Code_Target_Nat"
begin

section \<open>Strings of code points\<close>

text \<open>
  A Python \<open>str\<close> is a sequence of Unicode code points; \<open>len\<close>, indexing, \<open>find\<close> and
  slicing count code points.  A code point is modelled by its number, a string by the
  list of its code points.
\<close>

type_synonym ustring = "nat list"

definition of_ascii :: "string \<Rightarrow> ustring" where
  "of_ascii s = map of_char s"

text \<open>\<open>text.find(sub)\<close>: the index of the first occurrence, or \<open>-1\<close>.\<close>

fun find_from :: "ustring \<Rightarrow> ustring \<Rightarrow> nat \<Rightarrow> int" where
  "find_from sub [] i = (if sub = [] then int i else - 1)"
| "find_from sub (c # cs) i = (if prefix sub (c # cs) then int i else find_from sub cs (Suc i))"

definition find :: "ustring \<Rightarrow> ustring \<Rightarrow> int" where
  "find text sub = find_from sub text 0"

text \<open>\<open>sub in text\<close>.\<close>

definition str_contains :: "ustring \<Rightarrow> ustring \<Rightarrow> bool" where
  "str_contains text sub = (find text sub \<noteq> - 1)"

text \<open>\<open>text[s:e]\<close> for indices \<open>0 \<le> s\<close>, \<open>0 \<le> e\<close> (clipped at the end, empty when \<open>e \<le> s\<close>).\<close>

definition slice :: "ustring \<Rightarrow> nat \<Rightarrow> nat \<Rightarrow> ustring" where
  "slice text s e = take (e - s) (drop s text)"

section \<open>TextProcessor: character classes and expansion\<close>

text \<open>
  The pattern \<open>[a-zA-Z0-9]\<close> on a \<open>str\<close> matches the ASCII letters and digits only.
  \<open>re.escape\<close> makes every character of \<open>custom_chars\<close> a literal member of the class
  \<open>'[a-zA-Z0-9' + re.escape(custom_chars) + ']'\<close>, so \<open>re.match\<close> of that class against a single
  character is membership in the set below.
\<close>

definition is_alnum :: "nat \<Rightarrow> bool" where
  "is_alnum c = ((0x61 \<le> c \<and> c \<le> 0x7A) \<or> (0x41 \<le> c \<and> c \<le> 0x5A) \<or> (0x30 \<le> c \<and> c \<le> 0x39))"

definition char_class :: "ustring \<Rightarrow> nat \<Rightarrow> bool" where
  "char_class custom_chars c = (is_alnum c \<or> c \<in> set custom_chars)"

text \<open>
  The forbidden patterns are \<open>None\<close> when the given string is empty and the class of its
  characters otherwise; \<open>forbidden_pattern and re.match(forbidden_pattern, ch)\<close> is then:
\<close>

definition forbidden :: "ustring \<Rightarrow> nat \<Rightarrow> bool" where
  "forbidden forbidden_chars c = (forbidden_chars \<noteq> [] \<and> c \<in> set forbidden_chars)"

text \<open>The leftward loop of \<open>expand_substring\<close>, started at \<open>expanded_start\<close>.\<close>

fun expand_left :: "ustring \<Rightarrow> ustring \<Rightarrow> ustring \<Rightarrow> nat \<Rightarrow> nat" where
  "expand_left text custom_chars forbidden_start_chars 0 = 0"
| "expand_left text custom_chars forbidden_start_chars (Suc n) =
     (let prev_char = text ! n in
      if char_class custom_chars prev_char then
        if forbidden forbidden_start_chars prev_char then Suc n
        else expand_left text custom_chars forbidden_start_chars n
      else Suc n)"

text \<open>The rightward loop, started at \<open>expanded_end\<close>.\<close>

function expand_right :: "ustring \<Rightarrow> ustring \<Rightarrow> ustring \<Rightarrow> nat \<Rightarrow> nat" where
  "expand_right text custom_chars forbidden_end_chars e =
     (if e < length text then
        (let next_char = text ! e in
         if char_class custom_chars next_char then
           if forbidden forbidden_end_chars next_char then e
           else expand_right text custom_chars forbidden_end_chars (Suc e)
         else e)
      else e)"
  by pat_completeness auto
termination
  by (relation "measure (\<lambda>(text, custom_chars, forbidden_end_chars, e). length text - e)") auto

declare expand_right.simps [simp del]

definition expand_substring :: "ustring \<Rightarrow> ustring \<Rightarrow> ustring \<Rightarrow> ustring \<Rightarrow> ustring \<Rightarrow> ustring" where
  "expand_substring text substring custom_chars forbidden_start_chars forbidden_end_chars =
     (if \<not> str_contains text substring then substring
      else
        (let start_pos = nat (find text substring);
             end_pos = start_pos + length substring;
             expanded_start = expand_left text custom_chars forbidden_start_chars start_pos;
             expanded_end = expand_right text custom_chars forbidden_end_chars end_pos
         in slice text expanded_start expanded_end))"

section \<open>TextProcessor: the normalisation pipeline\<close>

text \<open>
  \<open>unicodedata.normalize('NFKC', _)\<close> and \<open>str.lower\<close> belong to the Python runtime and rest on
  the tables of the Unicode Character Database.  The pipeline takes them as a parameter;
  what is proved for every such pair of functions holds for the runtime's.
\<close>

record unicode_rt =
  normalize_nfkc :: "ustring \<Rightarrow> ustring"
  str_lower :: "ustring \<Rightarrow> ustring"

definition fullwidth_to_halfwidth :: "unicode_rt \<Rightarrow> ustring \<Rightarrow> ustring" where
  "fullwidth_to_halfwidth rt text = normalize_nfkc rt text"

text \<open>\<open>text.replace(ch, new)\<close> where \<open>ch\<close> is a string of one code point.\<close>

definition replace_char :: "nat \<Rightarrow> ustring \<Rightarrow> ustring \<Rightarrow> ustring" where
  "replace_char ch new text = concat (map (\<lambda>c. if c = ch then new else [c]) text)"

definition remove_non_breaking_spaces :: "ustring \<Rightarrow> ustring" where
  "remove_non_breaking_spaces text =
     replace_char 0x202F [] (replace_char 0x2007 [] (replace_char 0x00A0 [] text))"

definition to_lower :: "unicode_rt \<Rightarrow> ustring \<Rightarrow> ustring" where
  "to_lower rt text = str_lower rt text"

definition invisible_chars :: "nat list" where
  "invisible_chars = [0x200B, 0x200C, 0x200D, 0xFEFF, 0x202A, 0x202B, 0x202C, 0x202D, 0x202E]"

text \<open>The loop over \<open>invisible_chars\<close>, then \<open>re.sub(r'[\x00-\x1F\x7F]', '', text)\<close>.\<close>

definition remove_invisible_chars :: "ustring \<Rightarrow> ustring" where
  "remove_invisible_chars text =
     filter (\<lambda>c. \<not> (c \<le> 0x1F \<or> c = 0x7F)) (fold (\<lambda>ch t. replace_char ch [] t) invisible_chars text)"

definition space_chars :: "nat list" where
  "space_chars = [0x3000, 0x00A0, 0x2000, 0x2001, 0x2002, 0x2003, 0x2004, 0x2005,
                  0x2006, 0x2007, 0x2008, 0x2009, 0x200A, 0x202F, 0x205F, 0x2060]"

definition normalize_spaces :: "ustring \<Rightarrow> ustring" where
  "normalize_spaces text = fold (\<lambda>ch t. replace_char ch [0x20] t) space_chars text"

text \<open>\<open>re.sub(r' +', ' ', text)\<close>: every maximal run of spaces becomes one space.\<close>

function collapse_spaces :: "ustring \<Rightarrow> ustring" where
  "collapse_spaces [] = []"
| "collapse_spaces (c # cs) =
     (if c = 0x20 then 0x20 # collapse_spaces (dropWhile (\<lambda>d. d = 0x20) cs)
      else c # collapse_spaces cs)"
  by pat_completeness auto
termination
  by (relation "measure length") (auto simp: less_Suc_eq_le length_dropWhile_le)

text \<open>
  \<open>str.strip()\<close> removes the leading and trailing code points that \<open>str.isspace\<close> accepts:
  U+0009..U+000D, U+001C..U+0020, U+0085, U+00A0, U+1680, U+2000..U+200A, U+2028, U+2029,
  U+202F, U+205F and U+3000.
\<close>

definition is_space :: "nat \<Rightarrow> bool" where
  "is_space c = ((0x09 \<le> c \<and> c \<le> 0x0D) \<or> (0x1C \<le> c \<and> c \<le> 0x20) \<or> c = 0x85 \<or> c = 0xA0
     \<or> c = 0x1680 \<or> (0x2000 \<le> c \<and> c \<le> 0x200A) \<or> c = 0x2028 \<or> c = 0x2029 \<or> c = 0x202F
     \<or> c = 0x205F \<or> c = 0x3000)"

definition strip :: "ustring \<Rightarrow> ustring" where
  "strip text = rev (dropWhile is_space (rev (dropWhile is_space text)))"

definition process :: "unicode_rt \<Rightarrow> ustring \<Rightarrow> ustring" where
  "process rt text =
     strip (collapse_spaces (normalize_spaces (remove_invisible_chars
       (to_lower rt (remove_non_breaking_spaces (fullwidth_to_halfwidth rt text))))))"

subsection \<open>The runtime's tables on the code points this development evaluates\<close>

text \<open>
  For evaluation at concrete inputs the two runtime functions are given on a fragment of
  Unicode, following the Unicode normalisation algorithm (compatibility decomposition,
  canonical ordering, canonical composition) with the Character Database's entries for:
  ASCII; the spaces U+00A0, U+2000..U+200A, U+202F, U+205F, U+3000 (each decomposes to
  U+0020); the format characters U+200B..U+200D, U+2060, U+FEFF, U+202A..U+202E (no
  decomposition, no case); the fullwidth forms U+FF01..U+FF5E (each decomposes to the ASCII
  character \<open>0xFEE0\<close> below it); the combining acute accent U+0301 (combining class 230, the
  only character of the fragment with a non-zero class, so canonical ordering changes
  nothing and a mark composes only with the starter right before it); and the letters with
  acute that are the primary composites of an ASCII letter and U+0301.  On strings over
  these code points \<open>nfkc_fragment\<close> and \<open>lower_fragment\<close> are what CPython computes; they
  are used on such strings only.
\<close>

definition acute_composites :: "(nat \<times> nat) list" where
  "acute_composites =
     [(0x41, 0xC1), (0x43, 0x106), (0x45, 0xC9), (0x47, 0x1F4), (0x49, 0xCD), (0x4B, 0x1E30),
      (0x4C, 0x139), (0x4D, 0x1E3E), (0x4E, 0x143), (0x4F, 0xD3), (0x50, 0x1E54), (0x52, 0x154),
      (0x53, 0x15A), (0x55, 0xDA), (0x57, 0x1E82), (0x59, 0xDD), (0x5A, 0x179),
      (0x61, 0xE1), (0x63, 0x107), (0x65, 0xE9), (0x67, 0x1F5), (0x69, 0xED), (0x6B, 0x1E31),
      (0x6C, 0x13A), (0x6D, 0x1E3F), (0x6E, 0x144), (0x6F, 0xF3), (0x70, 0x1E55), (0x72, 0x155),
      (0x73, 0x15B), (0x75, 0xFA), (0x77, 0x1E83), (0x79, 0xFD), (0x7A, 0x17A)]"

definition decompose :: "nat \<Rightarrow> ustring" where
  "decompose c =
     (if c = 0xA0 \<or> (0x2000 \<le> c \<and> c \<le> 0x200A) \<or> c = 0x202F \<or> c = 0x205F \<or> c = 0x3000
      then [0x20]
      else if 0xFF01 \<le> c \<and> c \<le> 0xFF5E then [c - 0xFEE0]
      else (case map_of (map prod.swap acute_composites) c of
              Some b \<Rightarrow> [b, 0x301]
            | None \<Rightarrow> [c]))"

definition primary_composite :: "nat \<Rightarrow> nat \<Rightarrow> nat option" where
  "primary_composite l m = (if m = 0x301 then map_of acute_composites l else None)"

fun compose :: "ustring \<Rightarrow> ustring" where
  "compose (l # m # cs) =
     (case primary_composite l m of
        Some p \<Rightarrow> compose (p # cs)
      | None \<Rightarrow> l # compose (m # cs))"
| "compose cs = cs"

definition nfkc_fragment :: "ustring \<Rightarrow> ustring" where
  "nfkc_fragment text = compose (concat (map decompose text))"

definition lower_cp :: "nat \<Rightarrow> nat" where
  "lower_cp c =
     (if (0x41 \<le> c \<and> c \<le> 0x5A) \<or> (0xFF21 \<le> c \<and> c \<le> 0xFF3A) then c + 0x20
      else (case map_of (map prod.swap acute_composites) c of
              Some b \<Rightarrow> (if 0x41 \<le> b \<and> b \<le> 0x5A then the (map_of acute_composites (b + 0x20)) else c)
            | None \<Rightarrow> c))"

definition lower_fragment :: "ustring \<Rightarrow> ustring" where
  "lower_fragment text = map lower_cp text"

definition ucd_fragment :: unicode_rt where
  "ucd_fragment = \<lparr>normalize_nfkc = nfkc_fragment, str_lower = lower_fragment\<rparr>"

section \<open>TextProcessor: detect_continuous_custom_chars\<close>

text \<open>
  The four patterns are \<open>C+\<close>, \<open>^C+\<close>, \<open>C+$\<close> and \<open>^C+$\<close> for the class
  \<open>C = [a-zA-Z0-9 custom_chars]\<close>, compiled without flags, and \<open>re.findall\<close> returns the
  matched texts from left to right, each search starting where the last match ended.
  Without \<open>re.MULTILINE\<close>, \<open>^\<close> matches at index 0 only, and \<open>$\<close> matches at the end of the
  text and also right before a newline that is the last character of the text.
\<close>

text \<open>\<open>$\<close> at a position, given the text that remains from there.\<close>

definition at_dollar :: "ustring \<Rightarrow> bool" where
  "at_dollar rest = (rest = [] \<or> rest = [0x0A])"

text \<open>
  One match attempt of \<open>C+$\<close> at the start of \<open>rest\<close>: the greedy \<open>C+\<close> takes the whole run
  of class characters, then gives characters back one at a time (never the first) until
  \<open>$\<close> matches.
\<close>

definition match_plus_dollar :: "ustring \<Rightarrow> ustring \<Rightarrow> ustring option" where
  "match_plus_dollar custom_chars rest =
     List.find (\<lambda>m. at_dollar (drop (length m) rest))
       (rev (tl (prefixes (takeWhile (char_class custom_chars) rest))))"

text \<open>\<open>re.findall('C+', text)\<close>.\<close>

function findall_plus :: "ustring \<Rightarrow> ustring \<Rightarrow> ustring list" where
  "findall_plus custom_chars [] = []"
| "findall_plus custom_chars (c # cs) =
     (if char_class custom_chars c
      then (c # takeWhile (char_class custom_chars) cs)
             # findall_plus custom_chars (dropWhile (char_class custom_chars) cs)
      else findall_plus custom_chars cs)"
  by pat_completeness auto
termination
  by (relation "measure (\<lambda>(custom_chars, rest). length rest)")
    (auto simp: less_Suc_eq_le length_dropWhile_le)

text \<open>
  \<open>re.findall('C+$', text)\<close>.  A match is not empty, so the search goes on
  \<open>length m - 1\<close> characters after the first one of the match.
\<close>

fun findall_plus_dollar :: "ustring \<Rightarrow> ustring \<Rightarrow> ustring list" where
  "findall_plus_dollar custom_chars [] = []"
| "findall_plus_dollar custom_chars (c # cs) =
     (case match_plus_dollar custom_chars (c # cs) of
        Some m \<Rightarrow> m # findall_plus_dollar custom_chars (drop (length m - 1) cs)
      | None \<Rightarrow> findall_plus_dollar custom_chars cs)"

text \<open>\<open>re.findall('^C+', text)\<close> and \<open>re.findall('^C+$', text)\<close>: one attempt, at index 0.\<close>

definition findall_caret_plus :: "ustring \<Rightarrow> ustring \<Rightarrow> ustring list" where
  "findall_caret_plus custom_chars text =
     (case takeWhile (char_class custom_chars) text of [] \<Rightarrow> [] | c # cs \<Rightarrow> [c # cs])"

definition findall_caret_plus_dollar :: "ustring \<Rightarrow> ustring \<Rightarrow> ustring list" where
  "findall_caret_plus_dollar custom_chars text =
     (case match_plus_dollar custom_chars text of None \<Rightarrow> [] | Some m \<Rightarrow> [m])"

definition detect_continuous_custom_chars :: "ustring \<Rightarrow> ustring \<Rightarrow> bool \<Rightarrow> bool \<Rightarrow> ustring list" where
  "detect_continuous_custom_chars text custom_chars start_constraint end_constraint =
     (if start_constraint \<and> end_constraint then findall_caret_plus_dollar custom_chars text
      else if start_constraint then findall_caret_plus custom_chars text
      else if end_constraint then findall_plus_dollar custom_chars text
      else findall_plus custom_chars text)"

section \<open>EntityProcessor\<close>

text \<open>
  An entity is the dictionary the recognizer's contract describes: the keys \<open>text\<close>,
  \<open>start_index\<close>, \<open>end_index\<close> and the optional \<open>type\<close>.  Python compares dictionaries by
  their items, which is the equality of the record.
\<close>

record entity =
  etext :: ustring
  start_index :: int
  end_index :: int
  etype :: "ustring option"

definition preprocess_query :: "unicode_rt \<Rightarrow> ustring \<Rightarrow> ustring" where
  "preprocess_query rt query = process rt query"

text \<open>
  The two methods that are left to be implemented.  An exception a method raises is a
  value \<open>Inl e\<close>; the shipped bodies return \<open>[]\<close> and \<open>None\<close>.
\<close>

definition recognize_entities :: "ustring \<Rightarrow> 'e + entity list" where
  "recognize_entities processed_query = Inr []"

definition correct_entity :: "ustring \<Rightarrow> ustring \<Rightarrow> int \<Rightarrow> int \<Rightarrow> 'e + entity option" where
  "correct_entity original_entity expanded_entity start end = Inr None"

definition expand_entity_without_overlap ::
    "ustring \<Rightarrow> entity \<Rightarrow> entity list \<Rightarrow> ustring \<Rightarrow> ustring \<Rightarrow> ustring \<Rightarrow> ustring" where
  "expand_entity_without_overlap query entity all_entities custom_chars
       forbidden_start_chars forbidden_end_chars =
     (let entity_text = etext entity;
          other_boundaries =
            map (\<lambda>other_entity. (start_index other_entity, end_index other_entity))
              (filter (\<lambda>other_entity. other_entity \<noteq> entity) all_entities);
          expanded_text =
            expand_substring query entity_text custom_chars forbidden_start_chars forbidden_end_chars;
          expanded_start = find query expanded_text;
          expanded_end = expanded_start + int (length expanded_text)
      in if list_ex (\<lambda>(start, end). expanded_start < end \<and> expanded_end > start) other_boundaries
         then entity_text
         else expanded_text)"

definition detect_potential_entities :: "ustring \<Rightarrow> ustring \<Rightarrow> bool \<Rightarrow> bool \<Rightarrow> entity list" where
  "detect_potential_entities query custom_chars start_constraint end_constraint =
     map (\<lambda>entity_text.
            \<lparr>etext = entity_text,
             start_index = find query entity_text,
             end_index = find query entity_text + int (length entity_text),
             etype = Some (of_ascii ''DETECTED'')\<rparr>)
       (detect_continuous_custom_chars query custom_chars start_constraint end_constraint)"

text \<open>
  The body of the loop over the candidates, the same in both branches of \<open>process_query\<close>:
  the entity that is appended to \<open>final_entities\<close>, or the corrector's exception.
\<close>

definition resolve_entity ::
    "(ustring \<Rightarrow> ustring \<Rightarrow> int \<Rightarrow> int \<Rightarrow> 'e + entity option) \<Rightarrow> ustring \<Rightarrow> entity list
       \<Rightarrow> ustring \<Rightarrow> ustring \<Rightarrow> ustring \<Rightarrow> entity \<Rightarrow> 'e + entity" where
  "resolve_entity corrector processed_query entities custom_chars
       forbidden_start_chars forbidden_end_chars entity =
     (let expanded_text = expand_entity_without_overlap processed_query entity entities
            custom_chars forbidden_start_chars forbidden_end_chars
      in if expanded_text = etext entity then Inr entity
         else (case corrector (etext entity) expanded_text (start_index entity) (end_index entity) of
                 Inl err \<Rightarrow> Inl err
               | Inr (Some corrected_entity) \<Rightarrow> Inr corrected_entity
               | Inr None \<Rightarrow> Inr entity))"

text \<open>The loop: the first exception ends it and is the result.\<close>

fun resolve_loop :: "(entity \<Rightarrow> 'e + entity) \<Rightarrow> entity list \<Rightarrow> 'e + entity list" where
  "resolve_loop body [] = Inr []"
| "resolve_loop body (entity # rest) =
     (case body entity of
        Inl err \<Rightarrow> Inl err
      | Inr final_entity \<Rightarrow>
          (case resolve_loop body rest of
             Inl err \<Rightarrow> Inl err
           | Inr final_entities \<Rightarrow> Inr (final_entity # final_entities)))"

text \<open>
  \<open>process_query\<close> with the two collaborators as parameters (a subclass overrides the
  methods); \<open>entities.sort(key=...)\<close> is a stable sort, as \<open>sort_key\<close> is.
\<close>

definition process_query_with ::
    "unicode_rt \<Rightarrow> (ustring \<Rightarrow> 'e + entity list)
       \<Rightarrow> (ustring \<Rightarrow> ustring \<Rightarrow> int \<Rightarrow> int \<Rightarrow> 'e + entity option)
       \<Rightarrow> ustring \<Rightarrow> ustring \<Rightarrow> ustring \<Rightarrow> ustring \<Rightarrow> bool \<Rightarrow> bool \<Rightarrow> 'e + entity list" where
  "process_query_with rt recognizer corrector query custom_chars
       forbidden_start_chars forbidden_end_chars start_constraint end_constraint =
     (let processed_query = preprocess_query rt query in
      case recognizer processed_query of
        Inl err \<Rightarrow> Inl err
      | Inr entities \<Rightarrow>
          if entities \<noteq> [] then
            (let entities = sort_key start_index entities in
             resolve_loop (resolve_entity corrector processed_query entities custom_chars
               forbidden_start_chars forbidden_end_chars) entities)
          else
            (let potential_entities = detect_potential_entities processed_query custom_chars
                   start_constraint end_constraint in
             resolve_loop (resolve_entity corrector processed_query potential_entities custom_chars
               forbidden_start_chars forbidden_end_chars) potential_entities))"

text \<open>\<open>process_query\<close> as shipped.\<close>

definition process_query ::
    "unicode_rt \<Rightarrow> ustring \<Rightarrow> ustring \<Rightarrow> ustring \<Rightarrow> ustring \<Rightarrow> bool \<Rightarrow> bool \<Rightarrow> 'e + entity list" where
  "process_query rt = process_query_with rt recognize_entities correct_entity"

section \<open>Intervals of spans\<close>

text \<open>
  Two spans intersect when their half-open intervals \<open>[start_index, end_index)\<close> share a
  position.
\<close>

definition spans_intersect :: "entity \<Rightarrow> entity \<Rightarrow> bool" where
  "spans_intersect a b = (max (start_index a) (start_index b) < min (end_index a) (end_index b))"

fun non_overlapping :: "entity list \<Rightarrow> bool" where
  "non_overlapping [] = True"
| "non_overlapping (a # rest) = (list_all (\<lambda>b. \<not> spans_intersect a b) rest \<and> non_overlapping rest)"

section \<open>Notions used in the statements\<close>

text \<open>A text with no two adjacent spaces.\<close>

fun single_spaced :: "ustring \<Rightarrow> bool" where
  "single_spaced (a # b # cs) = (\<not> (a = 0x20 \<and> b = 0x20) \<and> single_spaced (b # cs))"
| "single_spaced cs = True"

text \<open>
  A code point that none of the steps after NFKC and lower-casing removes or replaces.
\<close>

definition clean :: "nat \<Rightarrow> bool" where
  "clean c = (c \<noteq> 0xA0 \<and> c \<noteq> 0x2007 \<and> c \<noteq> 0x202F \<and> \<not> (c \<le> 0x1F \<or> c = 0x7F)
     \<and> c \<notin> set invisible_chars \<and> c \<notin> set space_chars)"

text \<open>An ASCII code point that is not an upper-case letter.\<close>

definition lower_ascii :: "nat \<Rightarrow> bool" where
  "lower_ascii c = (c < 0x80 \<and> \<not> (0x41 \<le> c \<and> c \<le> 0x5A))"

section \<open>Facts about find, slices and the two expansion loops\<close>

lemma find_from_found:
  "find_from sub tx i \<noteq> - 1 \<Longrightarrow>
     \<exists>k. find_from sub tx i = int (i + k) \<and> k \<le> length tx \<and> prefix sub (drop k tx)
       \<and> (\<forall>j<k. \<not> prefix sub (drop j tx))"
proof (induction tx arbitrary: i)
  case Nil
  then show ?case by (auto split: if_splits)
next
  case (Cons c cs)
  show ?case
  proof (cases "prefix sub (c # cs)")
    case True
    then show ?thesis by (intro exI [of _ 0]) simp
  next
    case False
    with Cons.prems have "find_from sub cs (Suc i) \<noteq> - 1" by simp
    from Cons.IH [OF this] obtain k where k: "find_from sub cs (Suc i) = int (Suc i + k)"
      "k \<le> length cs" "prefix sub (drop k cs)" "\<forall>j<k. \<not> prefix sub (drop j cs)" by blast
    have "\<forall>j<Suc k. \<not> prefix sub (drop j (c # cs))"
    proof (intro allI impI)
      fix j assume "j < Suc k"
      then show "\<not> prefix sub (drop j (c # cs))"
        using False k(4) by (cases j) auto
    qed
    with False k show ?thesis by (intro exI [of _ "Suc k"]) simp
  qed
qed

lemma find_from_absent:
  "find_from sub tx i = - 1 \<Longrightarrow> \<not> sublist sub tx"
proof (induction tx arbitrary: i)
  case Nil
  then show ?case by (auto split: if_splits)
next
  case (Cons c cs)
  then show ?case by (auto simp: sublist_Cons_right split: if_splits)
qed

lemma str_contains_iff: "str_contains tx sub \<longleftrightarrow> sublist sub tx"
proof
  assume "str_contains tx sub"
  then have "find_from sub tx 0 \<noteq> - 1" by (simp add: str_contains_def find_def)
  from find_from_found [OF this] obtain k where "prefix sub (drop k tx)" by blast
  then show "sublist sub tx"
    by (metis append_take_drop_id prefix_def sublist_def)
next
  assume "sublist sub tx"
  then show "str_contains tx sub"
    using find_from_absent [of sub tx 0] by (auto simp: str_contains_def find_def)
qed

text \<open>Where find succeeds, the substring stands in the text at the index found.\<close>

lemma find_occurrence:
  assumes "str_contains tx sub"
  obtains p where "find tx sub = int p" "p + length sub \<le> length tx"
    "slice tx p (p + length sub) = sub"
proof -
  from assms have "find_from sub tx 0 \<noteq> - 1" by (simp add: str_contains_def find_def)
  from find_from_found [OF this] obtain k where k: "find_from sub tx 0 = int k"
    "k \<le> length tx" "prefix sub (drop k tx)" by auto
  from k(3) obtain zs where zs: "drop k tx = sub @ zs" by (auto simp: prefix_def)
  then have "length (drop k tx) = length sub + length zs" by simp
  with k(2) have len: "k + length sub \<le> length tx" by simp
  have "slice tx k (k + length sub) = sub" by (simp add: slice_def zs)
  with k(1) len show ?thesis using that by (simp add: find_def)
qed

lemma expand_left_le: "expand_left tx cc fs n \<le> n"
  by (induction n) (auto simp: Let_def)

lemma expand_right_ge: "e \<le> expand_right tx cc fe e"
proof (induction tx cc fe e rule: expand_right.induct)
  case (1 tx cc fe e)
  show ?case
    using 1 by (subst expand_right.simps) (auto simp: Let_def intro: Suc_leD)
qed

lemma expand_right_le: "e \<le> length tx \<Longrightarrow> expand_right tx cc fe e \<le> length tx"
proof (induction tx cc fe e rule: expand_right.induct)
  case (1 tx cc fe e)
  show ?case
    using 1 by (subst expand_right.simps) (auto simp: Let_def)
qed

text \<open>A leftward step was taken only over a character that is not forbidden.\<close>

lemma expand_left_not_forbidden:
  "expand_left tx cc fs n < n \<Longrightarrow> \<not> forbidden fs (tx ! expand_left tx cc fs n)"
proof (induction n)
  case 0
  then show ?case by simp
next
  case (Suc n)
  show ?case
  proof (cases "char_class cc (tx ! n) \<and> \<not> forbidden fs (tx ! n)")
    case False
    with Suc.prems show ?thesis by (auto simp: Let_def split: if_splits)
  next
    case True
    then have eq: "expand_left tx cc fs (Suc n) = expand_left tx cc fs n"
      by (simp add: Let_def)
    show ?thesis
    proof (cases "expand_left tx cc fs n < n")
      case True
      with Suc.IH eq show ?thesis by simp
    next
      case False
      with expand_left_le [of tx cc fs n] have "expand_left tx cc fs n = n" by simp
      with eq \<open>char_class cc (tx ! n) \<and> \<not> forbidden fs (tx ! n)\<close> show ?thesis by simp
    qed
  qed
qed

lemma expand_right_not_forbidden:
  "e < expand_right tx cc fe e \<Longrightarrow> \<not> forbidden fe (tx ! (expand_right tx cc fe e - 1))"
proof (induction tx cc fe e rule: expand_right.induct)
  case (1 tx cc fe e)
  let ?r = "expand_right tx cc fe"
  from "1.prems" have step: "e < length tx" "char_class cc (tx ! e)" "\<not> forbidden fe (tx ! e)"
    by (subst (asm) expand_right.simps, auto simp: Let_def split: if_splits)+
  then have eq: "?r e = ?r (Suc e)"
    by (subst expand_right.simps) (simp add: Let_def)
  show ?case
  proof (cases "Suc e < ?r (Suc e)")
    case True
    with "1.IH" step eq show ?thesis by simp
  next
    case False
    with expand_right_ge [of "Suc e" tx cc fe] have "?r (Suc e) = Suc e" by simp
    with eq step show ?thesis by simp
  qed
qed

lemma slice_slice:
  "s \<le> p \<Longrightarrow> q \<le> e \<Longrightarrow> slice (slice tx s e) (p - s) (q - s) = slice tx p q"
  by (cases "p \<le> q") (simp_all add: slice_def take_drop min_def)

lemma hd_slice: "s < e \<Longrightarrow> e \<le> length tx \<Longrightarrow> hd (slice tx s e) = tx ! s"
  by (simp add: slice_def hd_drop_conv_nth)

lemma last_slice: "s < e \<Longrightarrow> e \<le> length tx \<Longrightarrow> last (slice tx s e) = tx ! (e - 1)"
proof -
  assume a: "s < e" "e \<le> length tx"
  then have "length (slice tx s e) = e - s" by (simp add: slice_def)
  moreover have "slice tx s e \<noteq> []" using a by (simp add: slice_def)
  ultimately have "last (slice tx s e) = slice tx s e ! (e - s - 1)"
    by (simp add: last_conv_nth)
  also have "\<dots> = tx ! (s + (e - s - 1))" using a by (simp add: slice_def)
  also have "s + (e - s - 1) = e - 1" using a by simp
  finally show ?thesis .
qed

lemma forbidden_iff: "forbidden fs c \<longleftrightarrow> c \<in> set fs"
  by (auto simp: forbidden_def)

section \<open>Facts about the normalisation steps\<close>

lemma replace_char_delete: "replace_char ch [] tx = filter (\<lambda>c. c \<noteq> ch) tx"
  by (induction tx) (simp_all add: replace_char_def)

lemma replace_char_single: "replace_char ch [r] tx = map (\<lambda>c. if c = ch then r else c) tx"
  by (induction tx) (simp_all add: replace_char_def)

lemma fold_delete: "fold (\<lambda>ch t. replace_char ch [] t) chs tx = filter (\<lambda>c. c \<notin> set chs) tx"
proof (induction chs arbitrary: tx)
  case Nil
  then show ?case by simp
next
  case (Cons ch chs)
  have "fold (\<lambda>ch t. replace_char ch [] t) (ch # chs) tx
      = fold (\<lambda>ch t. replace_char ch [] t) chs (replace_char ch [] tx)"
    by simp
  also have "\<dots> = filter (\<lambda>c. c \<notin> set chs) (replace_char ch [] tx)"
    by (rule Cons.IH)
  also have "\<dots> = filter (\<lambda>c. c \<notin> set (ch # chs)) tx"
    unfolding replace_char_delete filter_filter by (rule filter_cong) auto
  finally show ?case .
qed

lemma fold_single:
  "r \<notin> set chs \<Longrightarrow>
     fold (\<lambda>ch t. replace_char ch [r] t) chs tx = map (\<lambda>c. if c \<in> set chs then r else c) tx"
proof (induction chs arbitrary: tx)
  case Nil
  then show ?case by simp
next
  case (Cons ch chs)
  from Cons.prems have r: "r \<notin> set chs" "r \<noteq> ch" by auto
  have "fold (\<lambda>ch t. replace_char ch [r] t) (ch # chs) tx
      = fold (\<lambda>ch t. replace_char ch [r] t) chs (replace_char ch [r] tx)"
    by simp
  also have "\<dots> = map (\<lambda>c. if c \<in> set chs then r else c) (replace_char ch [r] tx)"
    by (rule Cons.IH [OF r(1)])
  also have "\<dots> = map (\<lambda>c. if c \<in> set (ch # chs) then r else c) tx"
    unfolding replace_char_single map_map by (rule map_cong) (use r in auto)
  finally show ?case .
qed

lemma remove_non_breaking_spaces_filter:
  "remove_non_breaking_spaces tx = filter (\<lambda>c. c \<noteq> 0xA0 \<and> c \<noteq> 0x2007 \<and> c \<noteq> 0x202F) tx"
  unfolding remove_non_breaking_spaces_def replace_char_delete filter_filter
  by (rule filter_cong) auto

lemma remove_invisible_chars_filter:
  "remove_invisible_chars tx =
     filter (\<lambda>c. \<not> (c \<le> 0x1F \<or> c = 0x7F) \<and> c \<notin> set invisible_chars) tx"
  unfolding remove_invisible_chars_def fold_delete filter_filter
  by (rule filter_cong) auto

lemma space_not_space_char: "0x20 \<notin> set space_chars"
  by (simp add: space_chars_def)

lemma normalize_spaces_map:
  "normalize_spaces tx = map (\<lambda>c. if c \<in> set space_chars then 0x20 else c) tx"
  unfolding normalize_spaces_def by (rule fold_single) (rule space_not_space_char)

lemma collapse_spaces_Nil_iff: "collapse_spaces tx = [] \<longleftrightarrow> tx = []"
  by (cases tx) simp_all

lemma hd_collapse_spaces: "tx \<noteq> [] \<Longrightarrow> hd (collapse_spaces tx) = hd tx"
  by (cases tx) simp_all

lemma set_collapse_spaces: "set (collapse_spaces tx) \<subseteq> set tx"
proof (induction tx rule: collapse_spaces.induct)
  case 1
  then show ?case by simp
next
  case (2 c cs)
  show ?case
  proof (cases "c = 0x20")
    case True
    with 2 have "set (collapse_spaces (dropWhile (\<lambda>d. d = 0x20) cs)) \<subseteq> set cs"
      using set_dropWhileD by fastforce
    with True show ?thesis by auto
  next
    case False
    with 2 show ?thesis by auto
  qed
qed

lemma single_spaced_Cons:
  "single_spaced (a # cs) \<longleftrightarrow> (a = 0x20 \<longrightarrow> cs = [] \<or> hd cs \<noteq> 0x20) \<and> single_spaced cs"
  by (cases cs) auto

lemma single_spaced_collapse: "single_spaced (collapse_spaces tx)"
proof (induction tx rule: collapse_spaces.induct)
  case 1
  then show ?case by simp
next
  case (2 c cs)
  show ?case
  proof (cases "c = 0x20")
    case True
    let ?r = "dropWhile (\<lambda>d. d = 0x20) cs"
    have "?r = [] \<or> hd ?r \<noteq> 0x20"
      using hd_dropWhile [of "\<lambda>d. d = 0x20" cs] by auto
    then have "collapse_spaces ?r = [] \<or> hd (collapse_spaces ?r) \<noteq> 0x20"
    proof
      assume "?r = []"
      then show ?thesis by (simp add: collapse_spaces_Nil_iff)
    next
      assume h: "hd ?r \<noteq> 0x20"
      show ?thesis
      proof (cases "?r = []")
        case True
        then show ?thesis by (simp add: collapse_spaces_Nil_iff)
      next
        case False
        with h show ?thesis by (simp only: hd_collapse_spaces [OF False] simp_thms)
      qed
    qed
    with True 2 show ?thesis by (simp add: single_spaced_Cons)
  next
    case False
    with 2 show ?thesis by (simp add: single_spaced_Cons)
  qed
qed

lemma collapse_single_spaced: "single_spaced tx \<Longrightarrow> collapse_spaces tx = tx"
proof (induction tx rule: collapse_spaces.induct)
  case 1
  then show ?case by simp
next
  case (2 c cs)
  from "2.prems" have s: "single_spaced cs" by (simp add: single_spaced_Cons)
  show ?case
  proof (cases "c = 0x20")
    case True
    with "2.prems" have "cs = [] \<or> hd cs \<noteq> 0x20" by (simp add: single_spaced_Cons)
    then have d: "dropWhile (\<lambda>d. d = 0x20) cs = cs" by (cases cs) auto
    with "2.IH"(1) [OF True] s True show ?thesis by simp
  next
    case False
    with "2.IH"(2) s show ?thesis by simp
  qed
qed

lemma single_spaced_suffix: "single_spaced (xs @ ys) \<Longrightarrow> single_spaced ys"
proof (induction xs)
  case Nil
  then show ?case by simp
next
  case (Cons x xs)
  then show ?case by (simp add: single_spaced_Cons)
qed

lemma single_spaced_prefix: "single_spaced (xs @ ys) \<Longrightarrow> single_spaced xs"
proof (induction xs)
  case Nil
  then show ?case by simp
next
  case (Cons x xs)
  then show ?case by (cases xs) (auto simp: single_spaced_Cons)
qed

lemma rev_dropWhile_rev: "rev (dropWhile P (rev xs)) @ rev (takeWhile P (rev xs)) = xs"
proof -
  have "rev (takeWhile P (rev xs) @ dropWhile P (rev xs)) = xs" by simp
  then show ?thesis unfolding rev_append .
qed

lemma strip_decompose:
  "\<exists>l r. tx = l @ strip tx @ r"
proof -
  let ?u = "dropWhile is_space tx"
  have "tx = takeWhile is_space tx @ ?u" by simp
  moreover have "?u = strip tx @ rev (takeWhile is_space (rev ?u))"
    unfolding strip_def by (rule rev_dropWhile_rev [symmetric])
  ultimately show ?thesis by metis
qed

lemma set_strip: "set (strip tx) \<subseteq> set tx"
proof -
  from strip_decompose [of tx] obtain l r where "tx = l @ strip tx @ r" by blast
  then have "set tx = set l \<union> set (strip tx) \<union> set r" by (metis set_append sup_assoc)
  then show ?thesis by blast
qed

lemma single_spaced_strip: "single_spaced tx \<Longrightarrow> single_spaced (strip tx)"
proof -
  assume a: "single_spaced tx"
  from strip_decompose [of tx] obtain l r where "tx = l @ strip tx @ r" by blast
  with a have "single_spaced (l @ strip tx @ r)" by simp
  then have "single_spaced (strip tx @ r)" by (rule single_spaced_suffix)
  then show ?thesis by (rule single_spaced_prefix)
qed

lemma strip_idem: "strip (strip tx) = strip tx"
proof -
  let ?u = "dropWhile is_space tx"
  let ?v = "strip tx"
  have rv: "rev ?v = dropWhile is_space (rev ?u)" by (simp add: strip_def)
  have 1: "dropWhile is_space (rev ?v) = rev ?v"
    unfolding rv by (rule dropWhile_idem)
  have 2: "dropWhile is_space ?v = ?v"
  proof (cases "?v = []")
    case True
    then show ?thesis by simp
  next
    case False
    have "?u = ?v @ rev (takeWhile is_space (rev ?u))"
      unfolding strip_def by (rule rev_dropWhile_rev [symmetric])
    with False have h: "hd ?v = hd ?u" "?u \<noteq> []" by (metis hd_append2, metis append_is_Nil_conv)
    from h(2) have "\<not> is_space (hd ?u)" by (rule hd_dropWhile)
    with h(1) False show ?thesis by (cases ?v) auto
  qed
  have "strip ?v = rev (dropWhile is_space (rev (dropWhile is_space ?v)))" by (simp add: strip_def)
  also have "\<dots> = rev (rev ?v)" unfolding 2 1 ..
  finally show ?thesis by simp
qed

lemma clean_space: "clean 0x20"
  by (simp add: clean_def invisible_chars_def space_chars_def)

lemma clean_normalized:
  assumes "c \<in> set (normalize_spaces (remove_invisible_chars tx))"
  shows "clean c"
proof -
  from assms obtain d where d: "d \<in> set (remove_invisible_chars tx)"
    "c = (if d \<in> set space_chars then 0x20 else d)"
    unfolding normalize_spaces_map by auto
  show ?thesis
  proof (cases "d \<in> set space_chars")
    case True
    with d(2) clean_space show ?thesis by simp
  next
    case False
    with d(2) have cd: "c = d" by simp
    from d(1) have "\<not> (d \<le> 0x1F \<or> d = 0x7F)" "d \<notin> set invisible_chars"
      unfolding remove_invisible_chars_filter by auto
    moreover from False have "d \<noteq> 0xA0 \<and> d \<noteq> 0x2007 \<and> d \<noteq> 0x202F"
      by (auto simp: space_chars_def)
    ultimately show ?thesis using False cd by (simp add: clean_def)
  qed
qed

lemma clean_process: "c \<in> set (process rt tx) \<Longrightarrow> clean c"
proof -
  assume "c \<in> set (process rt tx)"
  then have "c \<in> set (normalize_spaces (remove_invisible_chars
       (to_lower rt (remove_non_breaking_spaces (fullwidth_to_halfwidth rt tx)))))"
    unfolding process_def using set_strip set_collapse_spaces by blast
  then show ?thesis by (rule clean_normalized)
qed

lemma single_spaced_process: "single_spaced (process rt tx)"
  unfolding process_def by (intro single_spaced_strip single_spaced_collapse)

lemma clean_steps:
  assumes "\<And>c. c \<in> set tx \<Longrightarrow> clean c"
  shows "remove_non_breaking_spaces tx = tx" "remove_invisible_chars tx = tx" "normalize_spaces tx = tx"
proof -
  show "remove_non_breaking_spaces tx = tx"
    unfolding remove_non_breaking_spaces_filter filter_id_conv using assms by (auto simp: clean_def)
  show "remove_invisible_chars tx = tx"
    unfolding remove_invisible_chars_filter filter_id_conv using assms by (auto simp: clean_def)
  show "normalize_spaces tx = tx"
    unfolding normalize_spaces_map using assms by (auto simp: clean_def map_idI)
qed

lemma process_fixed:
  assumes "\<And>c. c \<in> set t \<Longrightarrow> clean c" and "single_spaced t" and "strip t = t"
    and "normalize_nfkc rt t = t" and "str_lower rt t = t"
  shows "process rt t = t"
proof -
  have "process rt t = strip (collapse_spaces (normalize_spaces (remove_invisible_chars
       (to_lower rt (remove_non_breaking_spaces (fullwidth_to_halfwidth rt t))))))"
    by (simp only: process_def)
  also have "fullwidth_to_halfwidth rt t = t"
    by (simp only: fullwidth_to_halfwidth_def assms(4))
  also have "remove_non_breaking_spaces t = t" using assms(1) by (rule clean_steps(1))
  also have "to_lower rt t = t" by (simp only: to_lower_def assms(5))
  also have "remove_invisible_chars t = t" using assms(1) by (rule clean_steps(2))
  also have "normalize_spaces t = t" using assms(1) by (rule clean_steps(3))
  also have "collapse_spaces t = t" using assms(2) by (rule collapse_single_spaced)
  also have "strip t = t" by (rule assms(3))
  finally show ?thesis .
qed

lemma strip_process: "strip (process rt s) = process rt s"
  unfolding process_def by (rule strip_idem)

text \<open>On ASCII text the fragment is the identity and the ASCII lower-casing, and \<open>process\<close> is idempotent.\<close>

lemma decompose_ascii: "c < 0x80 \<Longrightarrow> decompose c = [c]"
  by (simp add: decompose_def acute_composites_def)

lemma compose_no_mark: "0x301 \<notin> set tx \<Longrightarrow> compose tx = tx"
proof (induction tx rule: compose.induct)
  case (1 l m cs)
  then have "primary_composite l m = None" by (simp add: primary_composite_def)
  with 1 show ?case by simp
qed simp_all

lemma nfkc_fragment_ascii:
  assumes "\<And>c. c \<in> set tx \<Longrightarrow> c < 0x80"
  shows "nfkc_fragment tx = tx"
proof -
  have "map decompose tx = map (\<lambda>c. [c]) tx"
    by (rule map_cong) (simp_all add: assms decompose_ascii)
  then have "concat (map decompose tx) = concat (map (\<lambda>c. [c]) tx)" by (rule arg_cong)
  then have "concat (map decompose tx) = tx" by (simp only: concat_map_singleton map_ident)
  moreover have "0x301 \<notin> set tx" using assms by fastforce
  ultimately show ?thesis by (simp add: nfkc_fragment_def compose_no_mark)
qed

lemma lower_cp_ascii:
  "c < 0x80 \<Longrightarrow> lower_cp c = (if 0x41 \<le> c \<and> c \<le> 0x5A then c + 0x20 else c)"
  by (simp add: lower_cp_def acute_composites_def)

lemma lower_fragment_fixed:
  assumes "\<And>c. c \<in> set tx \<Longrightarrow> lower_ascii c"
  shows "lower_fragment tx = tx"
  unfolding lower_fragment_def
  by (rule map_idI) (use assms in \<open>auto simp: lower_ascii_def lower_cp_ascii\<close>)

lemma lower_ascii_process:
  assumes "\<And>c. c \<in> set s \<Longrightarrow> c < 0x80" and "c \<in> set (process ucd_fragment s)"
  shows "lower_ascii c"
proof -
  have n: "normalize_nfkc ucd_fragment s = s"
    using assms(1) by (simp add: ucd_fragment_def nfkc_fragment_ascii)
  let ?a = "remove_non_breaking_spaces s"
  let ?b = "lower_fragment ?a"
  have a: "\<And>c. c \<in> set ?a \<Longrightarrow> c < 0x80"
    using assms(1) by (simp add: remove_non_breaking_spaces_filter)
  have b: "\<And>c. c \<in> set ?b \<Longrightarrow> lower_ascii c"
    using a by (auto simp: lower_fragment_def lower_ascii_def lower_cp_ascii)
  from assms(2) have "c \<in> set (normalize_spaces (remove_invisible_chars ?b))"
    unfolding process_def fullwidth_to_halfwidth_def to_lower_def n
    using set_strip set_collapse_spaces by (fastforce simp: ucd_fragment_def)
  then obtain d where d: "d \<in> set (remove_invisible_chars ?b)"
    "c = (if d \<in> set space_chars then 0x20 else d)"
    unfolding normalize_spaces_map by auto
  from d(1) have "lower_ascii d" using b unfolding remove_invisible_chars_filter by simp
  with d(2) show ?thesis by (simp add: lower_ascii_def)
qed

lemma process_ascii_idempotent:
  assumes "\<And>c. c \<in> set s \<Longrightarrow> c < 0x80"
  shows "process ucd_fragment (process ucd_fragment s) = process ucd_fragment s"
proof (rule process_fixed)
  have l: "\<And>c. c \<in> set (process ucd_fragment s) \<Longrightarrow> lower_ascii c"
    using assms by (rule lower_ascii_process)
  show "\<And>c. c \<in> set (process ucd_fragment s) \<Longrightarrow> clean c" by (rule clean_process)
  show "single_spaced (process ucd_fragment s)" by (rule single_spaced_process)
  show "strip (process ucd_fragment s) = process ucd_fragment s" by (rule strip_process)
  show "normalize_nfkc ucd_fragment (process ucd_fragment s) = process ucd_fragment s"
    using l by (simp add: ucd_fragment_def nfkc_fragment_ascii lower_ascii_def)
  show "str_lower ucd_fragment (process ucd_fragment s) = process ucd_fragment s"
    using l by (simp add: ucd_fragment_def lower_fragment_fixed)
qed

section \<open>Facts about the resolution loop\<close>

lemma resolve_loop_id: "(\<And>e. e \<in> set es \<Longrightarrow> body e = Inr e) \<Longrightarrow> resolve_loop body es = Inr es"
  by (induction es) auto

lemma resolve_entity_shipped:
  "resolve_entity correct_entity q es cc fs fe e = Inr e"
  by (simp add: resolve_entity_def correct_entity_def Let_def)

section \<open>Properties of expand_substring\<close>

text \<open>
  Claim C9.  When \<open>substring\<close> is not a literal substring of \<open>text\<close>, \<open>expand_substring\<close>
  returns \<open>substring\<close> unchanged.  The function has no raising branch: the test
  \<open>substring not in text\<close> returns before any index is computed.
\<close>

theorem expand_substring_not_found:
  "\<not> sublist substring tx \<Longrightarrow> expand_substring tx substring cc fs fe = substring"
  by (simp add: expand_substring_def str_contains_iff)

theorem expand_substring_not_found_witness:
  "\<not> sublist (of_ascii ''x'') (of_ascii ''abc'')
   \<and> expand_substring (of_ascii ''abc'') (of_ascii ''x'') (of_ascii ''-'') [] [] = of_ascii ''x''"
proof -
  have h: "\<not> sublist (of_ascii ''x'') (of_ascii ''abc'')"
    by (simp add: of_ascii_def sublist_Cons_right)
  from expand_substring_not_found [OF h] h show ?thesis by simp
qed

text \<open>
  Claim C7.  When \<open>substring\<close> occurs in \<open>text\<close>, the result is a slice \<open>text[s:e]\<close> whose
  interval contains the interval of the first occurrence, \<open>s \<le> find(text, substring)\<close> and
  \<open>find(text, substring) + len(substring) \<le> e\<close>, and \<open>substring\<close> is a substring of the result.
\<close>

theorem expand_substring_contains:
  assumes "sublist substring tx"
  shows "\<exists>s e. expand_substring tx substring cc fs fe = slice tx s e
           \<and> int s \<le> find tx substring
           \<and> find tx substring + int (length substring) \<le> int e
           \<and> e \<le> length tx
           \<and> sublist substring (expand_substring tx substring cc fs fe)"
proof -
  from assms have c: "str_contains tx substring" by (simp add: str_contains_iff)
  then obtain p where p: "find tx substring = int p" "p + length substring \<le> length tx"
    "slice tx p (p + length substring) = substring" by (rule find_occurrence)
  let ?s = "expand_left tx cc fs p"
  let ?e = "expand_right tx cc fe (p + length substring)"
  have r: "expand_substring tx substring cc fs fe = slice tx ?s ?e"
    using c p(1) by (simp add: expand_substring_def)
  have s: "?s \<le> p" by (rule expand_left_le)
  have e: "p + length substring \<le> ?e" by (rule expand_right_ge)
  have e': "?e \<le> length tx" using p(2) by (rule expand_right_le)
  have "slice (slice tx ?s ?e) (p - ?s) (p + length substring - ?s) = substring"
    using slice_slice [OF s e] p(3) by simp
  then have "sublist substring (slice tx ?s ?e)"
    by (metis slice_def sublist_drop sublist_order.order_trans sublist_take)
  with r s e e' p(1) show ?thesis by (intro exI [of _ ?s] exI [of _ ?e]) simp
qed

theorem expand_substring_contains_witness:
  "sublist (of_ascii ''NV-2'') (of_ascii ''pay #INV-2024 now'')
   \<and> expand_substring (of_ascii ''pay #INV-2024 now'') (of_ascii ''NV-2'') (of_ascii ''-'') [] []
       = of_ascii ''INV-2024''
   \<and> sublist (of_ascii ''NV-2'') (of_ascii ''INV-2024'')"
proof -
  let ?T = "of_ascii ''pay #INV-2024 now''" and ?S = "of_ascii ''NV-2''"
  have h: "sublist ?S ?T"
    by (simp add: of_ascii_def sublist_Cons_right)
  have v: "expand_substring ?T ?S (of_ascii ''-'') [] [] = of_ascii ''INV-2024''"
    by code_simp
  from expand_substring_contains [OF h, of "of_ascii ''-''" "[]" "[]"]
  have "sublist ?S (expand_substring ?T ?S (of_ascii ''-'') [] [])" by blast
  with h v show ?thesis by simp
qed

text \<open>
  Claim C5, as the code has it.  The loops test a character before stepping over it, so the
  first character of the result is not in \<open>forbidden_start_chars\<close> when the start moved
  left of the occurrence, and the last character is not in \<open>forbidden_end_chars\<close> when the
  end moved right of it.  A side that did not move keeps the boundary character of the
  occurrence, whatever it is.
\<close>

theorem expand_substring_boundaries:
  assumes "sublist substring tx"
  shows "(let p = nat (find tx substring);
              s = expand_left tx cc fs p;
              e = expand_right tx cc fe (p + length substring);
              r = expand_substring tx substring cc fs fe
          in r = slice tx s e \<and> s \<le> p \<and> p + length substring \<le> e \<and> e \<le> length tx
             \<and> (s < p \<longrightarrow> hd r \<notin> set fs)
             \<and> (p + length substring < e \<longrightarrow> last r \<notin> set fe))"
proof -
  from assms have c: "str_contains tx substring" by (simp add: str_contains_iff)
  then obtain p where p: "find tx substring = int p" "p + length substring \<le> length tx"
    by (rule find_occurrence)
  let ?s = "expand_left tx cc fs p"
  let ?e = "expand_right tx cc fe (p + length substring)"
  have r: "expand_substring tx substring cc fs fe = slice tx ?s ?e"
    using c p(1) by (simp add: expand_substring_def)
  have s: "?s \<le> p" by (rule expand_left_le)
  have e: "p + length substring \<le> ?e" by (rule expand_right_ge)
  have e': "?e \<le> length tx" using p(2) by (rule expand_right_le)
  have left: "hd (slice tx ?s ?e) \<notin> set fs" if "?s < p"
  proof -
    from that e have "?s < ?e" by simp
    then have "hd (slice tx ?s ?e) = tx ! ?s" using e' by (rule hd_slice)
    with expand_left_not_forbidden [OF that] show ?thesis by (simp add: forbidden_iff)
  qed
  have right: "last (slice tx ?s ?e) \<notin> set fe" if "p + length substring < ?e"
  proof -
    from that s have "?s < ?e" by simp
    then have "last (slice tx ?s ?e) = tx ! (?e - 1)" using e' by (rule last_slice)
    with expand_right_not_forbidden [OF that] show ?thesis by (simp add: forbidden_iff)
  qed
  from r s e e' left right p(1) show ?thesis by (simp add: Let_def)
qed

theorem expand_substring_boundaries_witness:
  "sublist (of_ascii ''NV-2'') (of_ascii ''#INV-2024 now'')
   \<and> expand_substring (of_ascii ''#INV-2024 now'') (of_ascii ''NV-2'') (of_ascii ''-'')
         (of_ascii ''#'') (of_ascii ''4'') = of_ascii ''INV-202''
   \<and> hd (of_ascii ''INV-202'') \<notin> set (of_ascii ''#'')
   \<and> last (of_ascii ''INV-202'') \<notin> set (of_ascii ''4'')"
proof -
  let ?T = "of_ascii ''#INV-2024 now''" and ?S = "of_ascii ''NV-2''"
  let ?C = "of_ascii ''-''" and ?FS = "of_ascii ''#''" and ?FE = "of_ascii ''4''"
  have h: "sublist ?S ?T"
    by (simp add: of_ascii_def sublist_Cons_right)
  have v: "expand_substring ?T ?S ?C ?FS ?FE = of_ascii ''INV-202''"
    by code_simp
  have l: "expand_left ?T ?C ?FS (nat (find ?T ?S)) < nat (find ?T ?S)"
    by code_simp
  have r: "nat (find ?T ?S) + length ?S < expand_right ?T ?C ?FE (nat (find ?T ?S) + length ?S)"
    by code_simp
  have "hd (expand_substring ?T ?S ?C ?FS ?FE) \<notin> set ?FS
      \<and> last (expand_substring ?T ?S ?C ?FS ?FE) \<notin> set ?FE"
    using expand_substring_boundaries [OF h, of ?C ?FS ?FE] l r
    unfolding Let_def by blast
  with h v show ?thesis by simp
qed

text \<open>
  The claim C5 as stated fails: with \<open>forbidden_start_chars = "a"\<close> the substring \<open>"a"\<close> of
  \<open>"ab"\<close> grows to the right only, and the changed, non-empty result \<open>"ab"\<close> starts with
  the forbidden \<open>a\<close>.
\<close>

theorem expand_substring_forbidden_counterexample:
  "expand_substring (of_ascii ''ab'') (of_ascii ''a'') [] (of_ascii ''a'') [] = of_ascii ''ab''
   \<and> of_ascii ''ab'' \<noteq> [] \<and> of_ascii ''ab'' \<noteq> of_ascii ''a''
   \<and> hd (of_ascii ''ab'') \<in> set (of_ascii ''a'')"
  by code_simp

section \<open>Properties of the normalisation pipeline\<close>

text \<open>
  Claim C4, as the code has it.  \<open>process\<close> applied to its own result changes nothing
  whenever that result is itself unchanged by NFKC normalisation and by lower-casing: the
  five steps that follow them are idempotent and leave nothing for each other.  This holds
  for every pair of runtime functions.
\<close>

theorem process_idempotent_when_stable:
  assumes "normalize_nfkc rt (process rt s) = process rt s"
    and "str_lower rt (process rt s) = process rt s"
  shows "process rt (process rt s) = process rt s"
  using clean_process single_spaced_process strip_process assms
  by (rule process_fixed)

theorem process_idempotent_when_stable_witness:
  "process ucd_fragment ([0xFF21, 0x200B, 0xA0, 0x20] @ of_ascii ''b Pay '') = of_ascii ''a b pay''
   \<and> normalize_nfkc ucd_fragment (of_ascii ''a b pay'') = of_ascii ''a b pay''
   \<and> str_lower ucd_fragment (of_ascii ''a b pay'') = of_ascii ''a b pay''
   \<and> process ucd_fragment (of_ascii ''a b pay'') = of_ascii ''a b pay''"
proof -
  let ?s = "[0xFF21, 0x200B, 0xA0, 0x20] @ of_ascii ''b Pay ''"
  have v: "process ucd_fragment ?s = of_ascii ''a b pay''" by code_simp
  have n: "normalize_nfkc ucd_fragment (of_ascii ''a b pay'') = of_ascii ''a b pay''" by code_simp
  have l: "str_lower ucd_fragment (of_ascii ''a b pay'') = of_ascii ''a b pay''" by code_simp
  from process_idempotent_when_stable [of ucd_fragment ?s] v n l
  show ?thesis by simp
qed

text \<open>
  The claim C4 as stated fails.  NFKC leaves \<open>a\<close>, U+200B, U+0301 as it is, since the
  zero-width space stands between the letter and the accent; the fourth step removes the
  zero-width space; a second pass then composes \<open>a\<close> and U+0301 into U+00E1.
\<close>

theorem process_not_idempotent_counterexample:
  "process ucd_fragment [0x61, 0x200B, 0x301] = [0x61, 0x301]
   \<and> process ucd_fragment (process ucd_fragment [0x61, 0x200B, 0x301]) = [0xE1]
   \<and> process ucd_fragment (process ucd_fragment [0x61, 0x200B, 0x301])
       \<noteq> process ucd_fragment [0x61, 0x200B, 0x301]"
  by code_simp

text \<open>
  Claim C2 on the code.  NFKC, the first step, maps each of U+00A0, U+2007 and U+202F to the
  ASCII space, so \<open>remove_non_breaking_spaces\<close>, the second step, finds nothing to delete:
  \<open>process\<close> turns \<open>a\<close>, U+00A0, \<open>b\<close> into \<open>a b\<close>, where the step alone gives \<open>ab\<close>.
\<close>

theorem process_non_breaking_space:
  "process ucd_fragment [0x61, 0xA0, 0x62] = [0x61, 0x20, 0x62]
   \<and> process ucd_fragment [0x61, 0x2007, 0x62] = [0x61, 0x20, 0x62]
   \<and> process ucd_fragment [0x61, 0x202F, 0x62] = [0x61, 0x20, 0x62]
   \<and> remove_non_breaking_spaces [0x61, 0xA0, 0x62] = [0x61, 0x62]"
  by code_simp

section \<open>Properties of detect_continuous_custom_chars\<close>

text \<open>
  Claim C8 on the code.  \<open>$\<close> also matches before a final newline, so with
  \<open>end_constraint\<close> (alone or with \<open>start_constraint\<close>) the run \<open>ab\<close> of \<open>"ab\n"\<close> is
  returned although it ends one character before the end of the buffer.  The scenario of
  the claim, without constraints, gives the one run \<open>order_A123-9\<close>.
\<close>

theorem detect_end_constraint_newline:
  "detect_continuous_custom_chars (of_ascii ''ab'' @ [0x0A]) [] False True = [of_ascii ''ab'']
   \<and> detect_continuous_custom_chars (of_ascii ''ab'' @ [0x0A]) [] True True = [of_ascii ''ab'']
   \<and> detect_continuous_custom_chars (of_ascii ''order_A123-9!'') (of_ascii ''-_'') False False
       = [of_ascii ''order_A123-9'']"
  by code_simp

section \<open>Properties of process_query\<close>

text \<open>
  Claim C10.  With the shipped collaborators (\<open>recognize_entities\<close> returns the empty list,
  \<open>correct_entity\<close> returns \<open>None\<close>), \<open>process_query\<close> returns exactly the list that
  \<open>detect_potential_entities\<close> produces on the normalised query, each span unchanged and of
  type \<open>DETECTED\<close>, for every query and configuration.
\<close>

theorem process_query_shipped:
  "process_query rt query cc fs fe sc ec = Inr (detect_potential_entities (process rt query) cc sc ec)
   \<and> list_all (\<lambda>e. etype e = Some (of_ascii ''DETECTED''))
         (detect_potential_entities (process rt query) cc sc ec)"
proof
  show "process_query rt query cc fs fe sc ec = Inr (detect_potential_entities (process rt query) cc sc ec)"
    by (simp add: process_query_def process_query_with_def preprocess_query_def
        recognize_entities_def Let_def resolve_loop_id resolve_entity_shipped)
  show "list_all (\<lambda>e. etype e = Some (of_ascii ''DETECTED''))
         (detect_potential_entities (process rt query) cc sc ec)"
    by (simp add: detect_potential_entities_def list_all_iff)
qed

theorem process_query_shipped_witness:
  "(process_query ucd_fragment (of_ascii ''Order_A123-9 Now!'') (of_ascii ''-_'') [] [] False False
      :: unit + entity list)
   = Inr [\<lparr>etext = of_ascii ''order_a123-9'', start_index = 0, end_index = 12,
            etype = Some (of_ascii ''DETECTED'')\<rparr>,
          \<lparr>etext = of_ascii ''now'', start_index = 13, end_index = 16,
            etype = Some (of_ascii ''DETECTED'')\<rparr>]"
proof -
  have "detect_potential_entities (process ucd_fragment (of_ascii ''Order_A123-9 Now!''))
          (of_ascii ''-_'') False False
        = [\<lparr>etext = of_ascii ''order_a123-9'', start_index = 0, end_index = 12,
            etype = Some (of_ascii ''DETECTED'')\<rparr>,
          \<lparr>etext = of_ascii ''now'', start_index = 13, end_index = 16,
            etype = Some (of_ascii ''DETECTED'')\<rparr>]"
    by code_simp
  with process_query_shipped [of ucd_fragment "of_ascii ''Order_A123-9 Now!''" "of_ascii ''-_''" "[]" "[]" False False]
  show ?thesis by simp
qed

text \<open>
  Claim C6.  An exception of the recognizer is the result of \<open>process_query\<close>, unchanged: no
  fallback scan, no list.  The fallback scanner is used exactly when the recognizer returns
  the empty list; a non-empty list is sorted by \<open>start_index\<close> and resolved.
\<close>

theorem process_query_recognizer:
  "(recognizer (process rt query) = Inl err \<longrightarrow>
      process_query_with rt recognizer corrector query cc fs fe sc ec = Inl err)
   \<and> (recognizer (process rt query) = Inr [] \<longrightarrow>
      process_query_with rt recognizer corrector query cc fs fe sc ec =
        (let potential_entities = detect_potential_entities (process rt query) cc sc ec
         in resolve_loop (resolve_entity corrector (process rt query) potential_entities cc fs fe)
              potential_entities))
   \<and> (recognizer (process rt query) = Inr entities \<and> entities \<noteq> [] \<longrightarrow>
      process_query_with rt recognizer corrector query cc fs fe sc ec =
        (let sorted = sort_key start_index entities
         in resolve_loop (resolve_entity corrector (process rt query) sorted cc fs fe) sorted))"
  by (simp add: process_query_with_def preprocess_query_def Let_def)

theorem process_query_recognizer_witness:
  "process_query_with ucd_fragment (\<lambda>q. Inl (of_ascii ''model not loaded''))
      correct_entity (of_ascii ''ab cd'') [] [] [] False False
   = Inl (of_ascii ''model not loaded'')
   \<and> process_query_with ucd_fragment (\<lambda>q. Inr [] :: ustring + entity list)
      correct_entity (of_ascii ''ab cd'') [] [] [] False False
   = Inr [\<lparr>etext = of_ascii ''ab'', start_index = 0, end_index = 2,
            etype = Some (of_ascii ''DETECTED'')\<rparr>,
          \<lparr>etext = of_ascii ''cd'', start_index = 3, end_index = 5,
            etype = Some (of_ascii ''DETECTED'')\<rparr>]
   \<and> process_query_with ucd_fragment
      (\<lambda>q. Inr [\<lparr>etext = of_ascii ''cd'', start_index = 3, end_index = 5, etype = None\<rparr>]
         :: ustring + entity list)
      correct_entity (of_ascii ''ab cd'') [] [] [] False False
   = Inr [\<lparr>etext = of_ascii ''cd'', start_index = 3, end_index = 5, etype = None\<rparr>]"
proof -
  let ?q = "of_ascii ''ab cd''"
  let ?cd = "\<lparr>etext = of_ascii ''cd'', start_index = 3, end_index = 5, etype = None\<rparr>"
  let ?boom = "of_ascii ''model not loaded''"
  have a: "process_query_with ucd_fragment (\<lambda>q. Inl ?boom)
      correct_entity ?q [] [] [] False False = Inl ?boom"
    by (rule process_query_recognizer [where recognizer = "\<lambda>q. Inl ?boom", THEN conjunct1, THEN mp])
      simp
  have "process_query_with ucd_fragment (\<lambda>q. Inr [] :: ustring + entity list)
      correct_entity ?q [] [] [] False False
      = (let potential_entities = detect_potential_entities (process ucd_fragment ?q) [] False False
         in resolve_loop (resolve_entity correct_entity (process ucd_fragment ?q) potential_entities [] [] [])
              potential_entities)"
    by (rule process_query_recognizer [where recognizer = "\<lambda>q. Inr []" and entities = "[]",
          THEN conjunct2, THEN conjunct1, THEN mp]) simp
  also have "\<dots> = Inr [\<lparr>etext = of_ascii ''ab'', start_index = 0, end_index = 2,
            etype = Some (of_ascii ''DETECTED'')\<rparr>,
          \<lparr>etext = of_ascii ''cd'', start_index = 3, end_index = 5,
            etype = Some (of_ascii ''DETECTED'')\<rparr>]"
    by code_simp
  finally have b: "process_query_with ucd_fragment (\<lambda>q. Inr [] :: ustring + entity list)
      correct_entity ?q [] [] [] False False
      = Inr [\<lparr>etext = of_ascii ''ab'', start_index = 0, end_index = 2,
            etype = Some (of_ascii ''DETECTED'')\<rparr>,
          \<lparr>etext = of_ascii ''cd'', start_index = 3, end_index = 5,
            etype = Some (of_ascii ''DETECTED'')\<rparr>]" .
  have "process_query_with ucd_fragment (\<lambda>q. Inr [?cd] :: ustring + entity list)
      correct_entity ?q [] [] [] False False
      = (let sorted = sort_key start_index [?cd]
         in resolve_loop (resolve_entity correct_entity (process ucd_fragment ?q) sorted [] [] []) sorted)"
    by (rule process_query_recognizer [where recognizer = "\<lambda>q. Inr [?cd]" and entities = "[?cd]",
          THEN conjunct2, THEN conjunct2, THEN mp]) simp
  also have "\<dots> = Inr [?cd]"
    by code_simp
  finally have c: "process_query_with ucd_fragment (\<lambda>q. Inr [?cd] :: ustring + entity list)
      correct_entity ?q [] [] [] False False = Inr [?cd]" .
  from a b c show ?thesis by simp
qed

text \<open>
  Claim C1 on the code.  \<open>detect_potential_entities\<close> gives each run the interval of the
  first occurrence of its text in the buffer (\<open>query.find\<close>), not the interval where the run
  was matched.  In \<open>"abc b"\<close> the runs are \<open>abc\<close> and \<open>b\<close>; the first \<open>b\<close> of the buffer is at
  index 1, inside \<open>abc\<close>, so the second span gets \<open>[1, 2)\<close> where the run stands at
  \<open>[4, 5)\<close>.  With the shipped collaborators \<open>process_query\<close> returns the two spans, whose
  intervals \<open>[0, 3)\<close> and \<open>[1, 2)\<close> intersect.
\<close>

theorem process_query_fallback_overlap:
  "detect_continuous_custom_chars (of_ascii ''abc b'') [] False False
     = [of_ascii ''abc'', of_ascii ''b'']
   \<and> find (of_ascii ''abc b'') (of_ascii ''b'') = 1
   \<and> (process_query ucd_fragment (of_ascii ''abc b'') [] [] [] False False :: unit + entity list)
     = Inr [\<lparr>etext = of_ascii ''abc'', start_index = 0, end_index = 3,
              etype = Some (of_ascii ''DETECTED'')\<rparr>,
            \<lparr>etext = of_ascii ''b'', start_index = 1, end_index = 2,
              etype = Some (of_ascii ''DETECTED'')\<rparr>]
   \<and> spans_intersect
        \<lparr>etext = of_ascii ''abc'', start_index = 0, end_index = 3,
          etype = Some (of_ascii ''DETECTED'')\<rparr>
        \<lparr>etext = of_ascii ''b'', start_index = 1, end_index = 2,
          etype = Some (of_ascii ''DETECTED'')\<rparr>
   \<and> \<not> non_overlapping
        [\<lparr>etext = of_ascii ''abc'', start_index = 0, end_index = 3,
           etype = Some (of_ascii ''DETECTED'')\<rparr>,
         \<lparr>etext = of_ascii ''b'', start_index = 1, end_index = 2,
           etype = Some (of_ascii ''DETECTED'')\<rparr>]"
  by code_simp

text \<open>
  Claim C3, as the code has it.  The candidates left out of the overlap check are those
  equal to the span (\<open>other_entity != entity\<close> compares the dictionaries' items).  When the
  interval at which the expanded text is found intersects the interval of a candidate of
  the list that differs from the span, the original text is returned.  So it is for
  \<open>AB\<close> at \<open>[0, 2)\<close> and \<open>CD\<close> at \<open>[3, 5)\<close> over \<open>"AB_CD"\<close> with \<open>custom_chars = "_"\<close>.
\<close>

theorem expand_entity_overlap_veto:
  assumes "other \<in> set all_entities" and "other \<noteq> entity"
    and "max (find query (expand_substring query (etext entity) cc fs fe)) (start_index other)
         < min (find query (expand_substring query (etext entity) cc fs fe)
                 + int (length (expand_substring query (etext entity) cc fs fe)))
               (end_index other)"
  shows "expand_entity_without_overlap query entity all_entities cc fs fe = etext entity"
proof -
  let ?x = "expand_substring query (etext entity) cc fs fe"
  from assms(3) have "find query ?x < end_index other \<and> find query ?x + int (length ?x) > start_index other"
    by simp
  with assms(1,2) have "list_ex (\<lambda>(start, end). find query ?x < end \<and> find query ?x + int (length ?x) > start)
      (map (\<lambda>other_entity. (start_index other_entity, end_index other_entity))
        (filter (\<lambda>other_entity. other_entity \<noteq> entity) all_entities))"
    by (auto simp: list_ex_iff)
  then show ?thesis by (simp add: expand_entity_without_overlap_def Let_def)
qed

theorem expand_entity_overlap_veto_witness:
  "expand_substring (of_ascii ''AB_CD'') (of_ascii ''AB'') (of_ascii ''_'') [] [] = of_ascii ''AB_CD''
   \<and> find (of_ascii ''AB_CD'') (of_ascii ''AB_CD'') = 0
   \<and> expand_entity_without_overlap (of_ascii ''AB_CD'')
        \<lparr>etext = of_ascii ''AB'', start_index = 0, end_index = 2, etype = None\<rparr>
        [\<lparr>etext = of_ascii ''AB'', start_index = 0, end_index = 2, etype = None\<rparr>,
         \<lparr>etext = of_ascii ''CD'', start_index = 3, end_index = 5, etype = None\<rparr>]
        (of_ascii ''_'') [] []
      = of_ascii ''AB''"
proof -
  let ?q = "of_ascii ''AB_CD''"
  let ?ab = "\<lparr>etext = of_ascii ''AB'', start_index = 0, end_index = 2, etype = None\<rparr>"
  let ?cd = "\<lparr>etext = of_ascii ''CD'', start_index = 3, end_index = 5, etype = None\<rparr>"
  have x: "expand_substring ?q (of_ascii ''AB'') (of_ascii ''_'') [] [] = of_ascii ''AB_CD''"
    by code_simp
  have f: "find ?q (of_ascii ''AB_CD'') = 0"
    by code_simp
  have m: "?cd \<in> set [?ab, ?cd]" by simp
  have n: "?cd \<noteq> ?ab" by (simp add: of_ascii_def)
  have i: "max (find ?q (expand_substring ?q (etext ?ab) (of_ascii ''_'') [] [])) (start_index ?cd)
         < min (find ?q (expand_substring ?q (etext ?ab) (of_ascii ''_'') [] [])
                 + int (length (expand_substring ?q (etext ?ab) (of_ascii ''_'') [] [])))
               (end_index ?cd)"
    using x f by (simp add: of_ascii_def)
  from expand_entity_overlap_veto [OF m n i] x f show ?thesis by simp
qed

text \<open>
  The claim C3 as stated fails when the list holds a second candidate with the same items
  as the span: the expansion \<open>ABC\<close> of the first \<open>AB\<close> at \<open>[0, 3)\<close> intersects the interval
  \<open>[0, 2)\<close> of the second, which the comparison takes for the span itself, and the
  expansion is returned.
\<close>

theorem expand_entity_duplicate_counterexample:
  "expand_substring (of_ascii ''ABC'') (of_ascii ''AB'') [] [] [] = of_ascii ''ABC''
   \<and> find (of_ascii ''ABC'') (of_ascii ''ABC'') = 0
   \<and> max 0 (start_index ([\<lparr>etext = of_ascii ''AB'', start_index = 0, end_index = 2, etype = None\<rparr>,
         \<lparr>etext = of_ascii ''AB'', start_index = 0, end_index = 2, etype = None\<rparr>] ! 1))
      < min (0 + int (length (of_ascii ''ABC'')))
         (end_index ([\<lparr>etext = of_ascii ''AB'', start_index = 0, end_index = 2, etype = None\<rparr>,
         \<lparr>etext = of_ascii ''AB'', start_index = 0, end_index = 2, etype = None\<rparr>] ! 1))
   \<and> expand_entity_without_overlap (of_ascii ''ABC'')
        ([\<lparr>etext = of_ascii ''AB'', start_index = 0, end_index = 2, etype = None\<rparr>,
         \<lparr>etext = of_ascii ''AB'', start_index = 0, end_index = 2, etype = None\<rparr>] ! 0)
        [\<lparr>etext = of_ascii ''AB'', start_index = 0, end_index = 2, etype = None\<rparr>,
         \<lparr>etext = of_ascii ''AB'', start_index = 0, end_index = 2, etype = None\<rparr>]
        [] [] []
      = of_ascii ''ABC''
   \<and> of_ascii ''ABC'' \<noteq> of_ascii ''AB''"
  by code_simp

end
